theory Spec2Isabelle
  imports Main
begin

section \<open>Text primitives\<close>

text \<open>
  The functions of \<^verbatim>\<open>fretboard_core.py\<close> work on Python strings. A string is modelled
  as the list of its Unicode code points, an \<^typ>\<open>int\<close> each as \<^verbatim>\<open>ord\<close> returns it;
  \<open>str\<close> gives the code points of an ASCII literal and \<open>cp\<close> the code point of an ASCII
  character. The character tables are those of CPython 3.11, which holds Unicode 14.0.
\<close>

type_synonym codepoint = int

type_synonym pystr = "codepoint list"

abbreviation cp :: "char \<Rightarrow> codepoint" where
  "cp c \<equiv> of_char c"

abbreviation str :: "string \<Rightarrow> pystr" where
  "str s \<equiv> map of_char s"

text \<open>\<^verbatim>\<open>c.isspace()\<close>: the white space of Unicode, 29 characters.\<close>

definition WHITESPACE :: "codepoint list" where
  "WHITESPACE =
     [0x9, 0xA, 0xB, 0xC, 0xD, 0x1C, 0x1D, 0x1E, 0x1F, 0x20, 0x85, 0xA0, 0x1680,
      0x2000, 0x2001, 0x2002, 0x2003, 0x2004, 0x2005, 0x2006, 0x2007, 0x2008, 0x2009,
      0x200A, 0x2028, 0x2029, 0x202F, 0x205F, 0x3000]"

definition isspace :: "codepoint \<Rightarrow> bool" where
  "isspace c = (c \<in> set WHITESPACE)"

text \<open>
  The decimal digits of Unicode come in runs of ten, zero to nine; \<open>DECIMAL_ZEROS\<close>
  lists the zero of each run, the ASCII one first. \<^verbatim>\<open>c.isdecimal()\<close> holds in these
  runs, and the value of a digit is its distance from the zero of its run.
\<close>

definition DECIMAL_ZEROS :: "codepoint list" where
  "DECIMAL_ZEROS =
     [0x30, 0x660, 0x6F0, 0x7C0, 0x966, 0x9E6, 0xA66, 0xAE6, 0xB66, 0xBE6, 0xC66,
      0xCE6, 0xD66, 0xDE6, 0xE50, 0xED0, 0xF20, 0x1040, 0x1090, 0x17E0, 0x1810, 0x1946,
      0x19D0, 0x1A80, 0x1A90, 0x1B50, 0x1BB0, 0x1C40, 0x1C50, 0xA620, 0xA8D0, 0xA900,
      0xA9D0, 0xA9F0, 0xAA50, 0xABF0, 0xFF10, 0x104A0, 0x10D30, 0x11066, 0x110F0,
      0x11136, 0x111D0, 0x112F0, 0x11450, 0x114D0, 0x11650, 0x116C0, 0x11730, 0x118E0,
      0x11950, 0x11C50, 0x11D50, 0x11DA0, 0x16A60, 0x16AC0, 0x16B50, 0x1D7CE, 0x1D7D8,
      0x1D7E2, 0x1D7EC, 0x1D7F6, 0x1E140, 0x1E2F0, 0x1E950, 0x1FBF0]"

definition decimal_zero :: "codepoint \<Rightarrow> codepoint option" where
  "decimal_zero c = find (\<lambda>z. z \<le> c \<and> c < z + 10) DECIMAL_ZEROS"

definition isdecimal :: "codepoint \<Rightarrow> bool" where
  "isdecimal c = (decimal_zero c \<noteq> None)"

definition digit_value :: "codepoint \<Rightarrow> int" where
  "digit_value c = (case decimal_zero c of Some z \<Rightarrow> c - z | None \<Rightarrow> 0)"

text \<open>
  \<^verbatim>\<open>c.isdigit()\<close> holds for the decimal digits and for the further digits (superscripts,
  circled digits and the like) of the ranges \<open>OTHER_DIGITS\<close>, bounds included.
\<close>

definition OTHER_DIGITS :: "(codepoint \<times> codepoint) list" where
  "OTHER_DIGITS =
     [(0xB2, 0xB3), (0xB9, 0xB9), (0x1369, 0x1371), (0x19DA, 0x19DA), (0x2070, 0x2070),
      (0x2074, 0x2079), (0x2080, 0x2089), (0x2460, 0x2468), (0x2474, 0x247C),
      (0x2488, 0x2490), (0x24EA, 0x24EA), (0x24F5, 0x24FD), (0x24FF, 0x24FF),
      (0x2776, 0x277E), (0x2780, 0x2788), (0x278A, 0x2792), (0x10A40, 0x10A43),
      (0x10E60, 0x10E68), (0x11052, 0x1105A), (0x1F100, 0x1F10A)]"

definition isdigit :: "codepoint \<Rightarrow> bool" where
  "isdigit c = (isdecimal c \<or> (\<exists>(lo, hi)\<in>set OTHER_DIGITS. lo \<le> c \<and> c \<le> hi))"

text \<open>
  \<^verbatim>\<open>s.upper()\<close> maps a character to one or more characters. \<open>UPPER_SPECIAL\<close> lists
  every character outside ASCII whose upper-case form holds an ASCII character, with that
  form. The upper-case form of any other character outside ASCII lies outside ASCII as
  a whole; the model leaves such a character as it is, and \<open>normalize_note\<close>, which
  compares the text with ASCII names only, cannot tell the difference.
\<close>

definition UPPER_SPECIAL :: "(codepoint \<times> pystr) list" where
  "UPPER_SPECIAL =
     [(0xDF, [0x53, 0x53]), (0x131, [0x49]), (0x149, [0x2BC, 0x4E]), (0x17F, [0x53]),
      (0x1F0, [0x4A, 0x30C]), (0x1E96, [0x48, 0x331]), (0x1E97, [0x54, 0x308]),
      (0x1E98, [0x57, 0x30A]), (0x1E99, [0x59, 0x30A]), (0x1E9A, [0x41, 0x2BE]),
      (0xFB00, [0x46, 0x46]), (0xFB01, [0x46, 0x49]), (0xFB02, [0x46, 0x4C]),
      (0xFB03, [0x46, 0x46, 0x49]), (0xFB04, [0x46, 0x46, 0x4C]),
      (0xFB05, [0x53, 0x54]), (0xFB06, [0x53, 0x54])]"

definition upper_char :: "codepoint \<Rightarrow> pystr" where
  "upper_char c =
     (if cp (CHR ''a'') \<le> c \<and> c \<le> cp (CHR ''z'') then [c - 32]
      else (case map_of UPPER_SPECIAL c of Some u \<Rightarrow> u | None \<Rightarrow> [c]))"

definition upper :: "pystr \<Rightarrow> pystr" where
  "upper s = concat (map upper_char s)"

text \<open>
  \<^verbatim>\<open>s.lower()\<close>, used to compare a token with \<open>r\<close> and \<open>root\<close>. Outside ASCII the model
  leaves a character as it is: no character but the ASCII letters has \<open>r\<close>, \<open>o\<close> or \<open>t\<close>
  in its lower-case form, so the comparison comes out the same.
\<close>

definition lower_char :: "codepoint \<Rightarrow> codepoint" where
  "lower_char c = (if cp (CHR ''A'') \<le> c \<and> c \<le> cp (CHR ''Z'') then c + 32 else c)"

definition lower :: "pystr \<Rightarrow> pystr" where
  "lower s = map lower_char s"

text \<open>\<^verbatim>\<open>s.strip()\<close>: leading and trailing white space removed.\<close>

definition lstrip :: "pystr \<Rightarrow> pystr" where
  "lstrip s = dropWhile isspace s"

definition rstrip :: "pystr \<Rightarrow> pystr" where
  "rstrip s = rev (dropWhile isspace (rev s))"

definition strip :: "pystr \<Rightarrow> pystr" where
  "strip s = rstrip (lstrip s)"

text \<open>\<^verbatim>\<open>s.replace(old, new)\<close> for a one-character \<^verbatim>\<open>old\<close>.\<close>

definition replace_char :: "codepoint \<Rightarrow> pystr \<Rightarrow> pystr \<Rightarrow> pystr" where
  "replace_char old new s = concat (map (\<lambda>c. if c = old then new else [c]) s)"

text \<open>
  \<^verbatim>\<open>s.split()\<close>: the maximal runs of characters that are not white space, in order.
  \<open>cur\<close> is the run being read.
\<close>

fun split_from :: "pystr \<Rightarrow> pystr \<Rightarrow> pystr list" where
  "split_from cur [] = (if cur = [] then [] else [cur])"
| "split_from cur (c # cs) =
     (if isspace c then (if cur = [] then split_from [] cs else cur # split_from [] cs)
      else split_from (cur @ [c]) cs)"

definition split :: "pystr \<Rightarrow> pystr list" where
  "split s = split_from [] s"

text \<open>
  The token list of both text entry points:
  \<^verbatim>\<open>raw = [x for x in text.replace(",", " ").split() if x.strip()]\<close>.
\<close>

definition raw_tokens :: "pystr \<Rightarrow> pystr list" where
  "raw_tokens text =
     filter (\<lambda>x. strip x \<noteq> []) (split (replace_char (cp (CHR '','')) (str '' '') text))"

section \<open>Errors\<close>

text \<open>
  Every failure of the source is a \<^verbatim>\<open>ValueError\<close>; the constructors keep the messages
  apart. \<open>Int_ValueError\<close> is the one that \<^verbatim>\<open>int\<close> raises, \<open>KeyError\<close> stands for a
  failed dictionary lookup.
\<close>

datatype error =
    Empty_note
  | Unsupported_note pystr
  | Empty_degree_token
  | Invalid_degree_token pystr
  | No_degree_tokens_provided
  | Unsupported_mode pystr
  | Int_ValueError
  | KeyError

text \<open>A list comprehension over a call that may raise: the first error aborts it.\<close>

fun map_result :: "('a \<Rightarrow> error + 'b) \<Rightarrow> 'a list \<Rightarrow> error + 'b list" where
  "map_result f [] = Inr []"
| "map_result f (x # xs) =
     (case f x of
        Inl e \<Rightarrow> Inl e
      | Inr y \<Rightarrow> (case map_result f xs of Inl e \<Rightarrow> Inl e | Inr ys \<Rightarrow> Inr (y # ys)))"

section \<open>Tables\<close>

definition CHROMATIC_SHARPS :: "pystr list" where
  "CHROMATIC_SHARPS =
     [str ''C'', str ''C#'', str ''D'', str ''D#'', str ''E'', str ''F'', str ''F#'', str ''G'',
      str ''G#'', str ''A'', str ''A#'', str ''B'']"

definition CHROMATIC_FLATS :: "pystr list" where
  "CHROMATIC_FLATS =
     [str ''C'', str ''Db'', str ''D'', str ''Eb'', str ''E'', str ''F'', str ''Gb'', str ''G'',
      str ''Ab'', str ''A'', str ''Bb'', str ''B'']"

definition SHARP_TO_FLAT :: "(pystr \<times> pystr) list" where
  "SHARP_TO_FLAT =
     [(str ''C#'', str ''Db''), (str ''D#'', str ''Eb''), (str ''F#'', str ''Gb''),
      (str ''G#'', str ''Ab''), (str ''A#'', str ''Bb'')]"

definition FLAT_TO_SHARP :: "(pystr \<times> pystr) list" where
  "FLAT_TO_SHARP =
     [(str ''Db'', str ''C#''), (str ''Eb'', str ''D#''), (str ''Fb'', str ''E''),
      (str ''Gb'', str ''F#''), (str ''Ab'', str ''G#''), (str ''Bb'', str ''A#''),
      (str ''Cb'', str ''B'')]"

definition ENHARMONIC :: "(pystr \<times> pystr) list" where
  "ENHARMONIC = [(str ''B#'', str ''C''), (str ''E#'', str ''F'')]"

text \<open>\<^verbatim>\<open>{n: i for i, n in enumerate(names)}\<close>\<close>

definition enumerate_index :: "pystr list \<Rightarrow> (pystr \<times> int) list" where
  "enumerate_index names = zip names (map int [0 ..< length names])"

definition NOTE_TO_INDEX_SHARPS :: "(pystr \<times> int) list" where
  "NOTE_TO_INDEX_SHARPS = enumerate_index CHROMATIC_SHARPS"

definition NOTE_TO_INDEX_FLATS :: "(pystr \<times> int) list" where
  "NOTE_TO_INDEX_FLATS = enumerate_index CHROMATIC_FLATS"

definition DEGREE_BASE_OFFSETS :: "(int \<times> int) list" where
  "DEGREE_BASE_OFFSETS = [(1, 0), (2, 2), (3, 4), (4, 5), (5, 7), (6, 9), (7, 11)]"

section \<open>Note names\<close>

text \<open>
  \<^verbatim>\<open>normalize_note\<close>: the cleaned text \<open>n\<close> is cut to its first character, or to its
  first character and an accidental when the second character is \<open>#\<close> or \<open>B\<close>.
\<close>

definition normalize_note :: "pystr \<Rightarrow> bool \<Rightarrow> error + pystr" where
  "normalize_note note use_flats =
     (let n = replace_char (cp (CHR '' '')) [] (upper (strip note)) in
      if n = [] then Inl Empty_note
      else
        let n = (if length n \<ge> 2 \<and> n ! 1 \<in> set (str ''#B'')
                 then (if n ! 1 = (cp (CHR ''B'')) then [n ! 0] @ (str ''b'') else [n ! 0] @ (str ''#''))
                 else [n ! 0]);
            n = (case map_of FLAT_TO_SHARP n of Some s \<Rightarrow> s | None \<Rightarrow> n);
            n = (case map_of ENHARMONIC n of Some s \<Rightarrow> s | None \<Rightarrow> n)
        in if map_of NOTE_TO_INDEX_SHARPS n = None then Inl (Unsupported_note note)
           else if use_flats
                then (case map_of SHARP_TO_FLAT n of Some fl \<Rightarrow> Inr fl | None \<Rightarrow> Inr n)
                else Inr n)"

definition parse_notes_text :: "pystr \<Rightarrow> bool \<Rightarrow> error + pystr list" where
  "parse_notes_text text use_flats =
     map_result (\<lambda>x. normalize_note x use_flats) (raw_tokens text)"

text \<open>\<^verbatim>\<open>unique_preserve_order\<close>: the loop over \<open>items\<close> with its \<open>seen\<close> set and \<open>out\<close> list.\<close>

fun unique_loop :: "'a set \<Rightarrow> 'a list \<Rightarrow> 'a list \<Rightarrow> 'a list" where
  "unique_loop seen out [] = out"
| "unique_loop seen out (x # items) =
     (if x \<in> seen then unique_loop seen out items
      else unique_loop (insert x seen) (out @ [x]) items)"

definition unique_preserve_order :: "'a list \<Rightarrow> 'a list" where
  "unique_preserve_order items = unique_loop {} [] items"

section \<open>Degree tokens\<close>

definition is_acc :: "codepoint \<Rightarrow> bool" where
  "is_acc ch = (ch \<in> set (str ''b#x''))"

text \<open>
  \<^verbatim>\<open>int(num_str)\<close> on a run of characters that satisfy \<^verbatim>\<open>isdigit\<close>: a \<^verbatim>\<open>ValueError\<close> when
  a character is not a decimal digit or when the run is longer than 4300 characters, the
  default limit of \<^verbatim>\<open>int\<close>; the decimal value otherwise.
\<close>

definition MAX_STR_DIGITS :: int where
  "MAX_STR_DIGITS = 4300"

definition int_of_digits :: "pystr \<Rightarrow> error + int" where
  "int_of_digits num_str =
     (if (\<exists>c\<in>set num_str. \<not> isdecimal c) \<or> int (length num_str) > MAX_STR_DIGITS
      then Inl Int_ValueError
      else Inr (foldl (\<lambda>v c. 10 * v + digit_value c) 0 num_str))"

text \<open>The loop \<^verbatim>\<open>for ch in acc\<close> that accumulates \<open>shift\<close>.\<close>

definition acc_shift :: "pystr \<Rightarrow> int" where
  "acc_shift acc =
     foldl (\<lambda>shift ch. if ch = (cp (CHR ''b'')) then shift - 1
                        else if ch = (cp (CHR ''#'')) then shift + 1
                        else if ch = (cp (CHR ''x'')) then shift + 2
                        else shift) 0 acc"

text \<open>
  \<^verbatim>\<open>parse_degree_token\<close>. The three index loops of the source read a run each:
  \<open>prefix = t[0:i]\<close>, \<open>num_str = t[i:j]\<close>, \<open>suffix = t[j:k]\<close>; the token is accepted
  when \<open>k\<close> reaches the end and \<^verbatim>\<open>int(num_str)\<close> succeeds. U+266D and U+266F are the
  flat and the sharp sign.
\<close>

definition parse_degree_token :: "pystr \<Rightarrow> error + (int \<times> int)" where
  "parse_degree_token token =
     (let t = strip token in
      if t = [] then Inl Empty_degree_token
      else
        let t = replace_char 0x266F (str ''#'') (replace_char 0x266D (str ''b'') t)
        in if lower t \<in> set [str ''r'', str ''root''] then Inr (1, 0)
           else
             let prefix = takeWhile is_acc t;
                 after_prefix = dropWhile is_acc t
             in if after_prefix = [] \<or> \<not> isdigit (hd after_prefix)
                then Inl (Invalid_degree_token token)
                else
                  let num_str = takeWhile isdigit after_prefix;
                      after_num = dropWhile isdigit after_prefix;
                      suffix = takeWhile is_acc after_num;
                      after_suffix = dropWhile is_acc after_num
                  in if after_suffix \<noteq> [] then Inl (Invalid_degree_token token)
                     else (case int_of_digits num_str of
                             Inl e \<Rightarrow> Inl e
                           | Inr degree \<Rightarrow> Inr (degree, acc_shift (prefix @ suffix))))"

text \<open>One round of the loop of \<^verbatim>\<open>degrees_to_notes_text\<close>: the note of a token.\<close>

definition degree_note :: "pystr list \<Rightarrow> int \<Rightarrow> pystr \<Rightarrow> error + pystr" where
  "degree_note chromatic root_idx tok =
     (case parse_degree_token tok of
        Inl e \<Rightarrow> Inl e
      | Inr (deg, shift) \<Rightarrow>
          let deg_base = ((deg - 1) mod 7) + 1 in
          (case map_of DEGREE_BASE_OFFSETS deg_base of
             None \<Rightarrow> Inl KeyError
           | Some base_offset \<Rightarrow>
               let offset = (base_offset + shift) mod 12
               in Inr (chromatic ! nat ((root_idx + offset) mod 12))))"

definition degrees_to_notes_text :: "pystr \<Rightarrow> pystr \<Rightarrow> bool \<Rightarrow> error + pystr list" where
  "degrees_to_notes_text text root use_flats =
     (let raw = raw_tokens text in
      if raw = [] then Inl No_degree_tokens_provided
      else
        let chromatic = (if use_flats then CHROMATIC_FLATS else CHROMATIC_SHARPS);
            note_to_index = (if use_flats then NOTE_TO_INDEX_FLATS else NOTE_TO_INDEX_SHARPS)
        in case normalize_note root use_flats of
             Inl e \<Rightarrow> Inl e
           | Inr root_n \<Rightarrow>
               (case map_of note_to_index root_n of
                  None \<Rightarrow> Inl KeyError
                | Some root_idx \<Rightarrow>
                    (case map_result (degree_note chromatic root_idx) raw of
                       Inl e \<Rightarrow> Inl e
                     | Inr notes \<Rightarrow> Inr (unique_preserve_order notes))))"

section \<open>Scales\<close>

text \<open>The table of \<^verbatim>\<open>scales.py\<close>.\<close>

definition SCALE_MODES :: "(pystr \<times> int list) list" where
  "SCALE_MODES =
     [(str ''ionian_major'', [2, 2, 1, 2, 2, 2, 1]),
      (str ''dorian'', [2, 1, 2, 2, 2, 1, 2]),
      (str ''phrygian'', [1, 2, 2, 2, 1, 2, 2]),
      (str ''lydian'', [2, 2, 2, 1, 2, 2, 1]),
      (str ''mixolydian'', [2, 2, 1, 2, 2, 1, 2]),
      (str ''aeolian_natural_minor'', [2, 1, 2, 2, 1, 2, 2]),
      (str ''locrian'', [1, 2, 2, 1, 2, 2, 2]),
      (str ''harmonic_minor'', [2, 1, 2, 2, 1, 3, 1]),
      (str ''melodic_minor'', [2, 1, 2, 2, 2, 2, 1]),
      (str ''harmonic_minor_mode2_locrian_nat6'', [1, 2, 1, 2, 2, 1, 3]),
      (str ''harmonic_minor_mode3_ionian_aug'', [2, 1, 2, 2, 1, 3, 1]),
      (str ''harmonic_minor_mode4_dorian_4'', [2, 2, 1, 2, 1, 3, 1]),
      (str ''harmonic_minor_mode5_phrygian_dom'', [1, 3, 1, 2, 1, 2, 2]),
      (str ''harmonic_minor_mode6_lydian_2'', [3, 1, 2, 1, 2, 2, 1]),
      (str ''harmonic_minor_mode7_superlocrian_bb7'', [1, 2, 1, 2, 2, 1, 3]),
      (str ''dorian_b2'', [1, 2, 2, 2, 2, 1, 2]),
      (str ''lydian_aug'', [2, 2, 2, 2, 1, 2, 1]),
      (str ''lydian_dom'', [2, 2, 2, 1, 2, 1, 2]),
      (str ''mixolydian_b6'', [2, 2, 1, 2, 1, 2, 2]),
      (str ''locrian_nat2'', [2, 1, 2, 1, 2, 2, 2]),
      (str ''altered_superlocrian'', [1, 2, 1, 2, 2, 2, 2]),
      (str ''pentatonic_major'', [2, 2, 3, 2, 3]),
      (str ''pentatonic_minor'', [3, 2, 2, 3, 2]),
      (str ''egyptian_pentatonic'', [2, 3, 2, 3, 2]),
      (str ''hirajoshi'', [2, 1, 4, 1, 4]),
      (str ''iwato'', [1, 4, 1, 4, 2]),
      (str ''kumoi'', [2, 1, 4, 2, 3]),
      (str ''insen'', [1, 4, 2, 3, 2]),
      (str ''yo'', [2, 3, 2, 2, 3]),
      (str ''blues'', [3, 2, 1, 1, 3, 2]),
      (str ''whole_tone'', [2, 2, 2, 2, 2, 2]),
      (str ''augmented_hexatonic'', [3, 1, 3, 1, 3, 1]),
      (str ''prometheus'', [2, 2, 2, 3, 1, 2]),
      (str ''tritone_scale'', [1, 2, 1, 2, 1, 2, 3]),
      (str ''diminished_hw'', [1, 2, 1, 2, 1, 2, 1, 2]),
      (str ''diminished_wh'', [2, 1, 2, 1, 2, 1, 2, 1]),
      (str ''hungarian_minor'', [2, 1, 3, 1, 1, 3, 1]),
      (str ''double_harmonic_major'', [1, 3, 1, 2, 1, 3, 1]),
      (str ''neapolitan_minor'', [1, 2, 2, 2, 1, 3, 1]),
      (str ''neapolitan_major'', [1, 2, 2, 2, 2, 2, 1]),
      (str ''enigmatic'', [1, 3, 2, 2, 2, 1, 1]),
      (str ''persian'', [1, 3, 1, 1, 2, 3, 1]),
      (str ''romanian_minor'', [2, 1, 3, 1, 2, 1, 2]),
      (str ''ukrainian_dorian'', [2, 1, 3, 1, 2, 1, 2]),
      (str ''spanish_gypsy'', [1, 3, 1, 2, 1, 2, 2]),
      (str ''chromatic'', [1, 1, 1, 1, 1, 1, 1, 1, 1, 1, 1, 1])]"

text \<open>The loop \<^verbatim>\<open>for step in steps\<close> of \<^verbatim>\<open>generate_scale\<close>, from the index \<open>idx\<close>.\<close>

fun scale_walk :: "int \<Rightarrow> int list \<Rightarrow> pystr list" where
  "scale_walk idx [] = []"
| "scale_walk idx (step # steps) =
     (let idx = (idx + step) mod 12 in CHROMATIC_SHARPS ! nat idx # scale_walk idx steps)"

definition generate_scale ::
  "pystr \<Rightarrow> pystr \<Rightarrow> (pystr \<rightharpoonup> int list) \<Rightarrow> bool \<Rightarrow> error + pystr list" where
  "generate_scale root mode scale_modes use_flats =
     (case scale_modes mode of
        None \<Rightarrow> Inl (Unsupported_mode mode)
      | Some steps \<Rightarrow>
          (case normalize_note root False of
             Inl e \<Rightarrow> Inl e
           | Inr root_n \<Rightarrow>
               (case map_of NOTE_TO_INDEX_SHARPS root_n of
                  None \<Rightarrow> Inl KeyError
                | Some root_idx \<Rightarrow>
                    let notes = root_n # scale_walk root_idx steps;
                        notes = (if length steps \<in> set [5, 6, 7, 8, 12] then butlast notes
                                 else notes);
                        notes = (if use_flats
                                 then map (\<lambda>n. case map_of SHARP_TO_FLAT n of
                                                  Some fl \<Rightarrow> fl | None \<Rightarrow> n) notes
                                 else notes)
                    in Inr (unique_preserve_order notes))))"

section \<open>Reference definitions\<close>

text \<open>
  Deduplication that keeps the first occurrence of every element, in order: the
  reference for \<open>unique_preserve_order\<close>.
\<close>

fun first_occurrences :: "'a list \<Rightarrow> 'a list" where
  "first_occurrences [] = []"
| "first_occurrences (x # xs) = x # filter (\<lambda>y. y \<noteq> x) (first_occurrences xs)"

text \<open>The name list selected by the flag (\<^verbatim>\<open>chromatic\<close> in the source).\<close>

definition chromatic_names :: "bool \<Rightarrow> pystr list" where
  "chromatic_names use_flats = (if use_flats then CHROMATIC_FLATS else CHROMATIC_SHARPS)"

text \<open>
  The pitch-class index of a note text under a flag, read as \<^verbatim>\<open>degrees_to_notes_text\<close>
  reads the index of its root: normalise, then look the name up in the table of the flag.
\<close>

definition pitch_class_of :: "pystr \<Rightarrow> bool \<Rightarrow> int option" where
  "pitch_class_of note use_flats =
     (case normalize_note note use_flats of
        Inl e \<Rightarrow> None
      | Inr n \<Rightarrow> map_of (if use_flats then NOTE_TO_INDEX_FLATS else NOTE_TO_INDEX_SHARPS) n)"

text \<open>
  The three stages of \<open>normalize_note\<close>, named for the proofs: the cleaned text, the
  spelling cut from it, and the table lookups on that spelling.
\<close>

definition clean_note :: "pystr \<Rightarrow> pystr" where
  "clean_note note = replace_char (cp (CHR '' '')) [] (upper (strip note))"

definition cut_spelling :: "pystr \<Rightarrow> pystr" where
  "cut_spelling n =
     (if length n \<ge> 2 \<and> n ! 1 \<in> set (str ''#B'')
      then (if n ! 1 = (cp (CHR ''B'')) then [n ! 0] @ (str ''b'') else [n ! 0] @ (str ''#''))
      else [n ! 0])"

definition lookup_spelling :: "pystr \<Rightarrow> pystr \<Rightarrow> bool \<Rightarrow> error + pystr" where
  "lookup_spelling note n use_flats =
     (let n = (case map_of FLAT_TO_SHARP n of Some s \<Rightarrow> s | None \<Rightarrow> n);
          n = (case map_of ENHARMONIC n of Some s \<Rightarrow> s | None \<Rightarrow> n)
      in if map_of NOTE_TO_INDEX_SHARPS n = None then Inl (Unsupported_note note)
         else if use_flats
              then (case map_of SHARP_TO_FLAT n of Some fl \<Rightarrow> Inr fl | None \<Rightarrow> Inr n)
              else Inr n)"

text \<open>
  The reference offsets of the major scale, \<open>{1:0, 2:2, 3:4, 4:5, 5:7, 6:9, 7:11}\<close>, and
  the pitch class of a degree with its shift over a root index, as the specification
  writes it.
\<close>

definition major_offset :: "int \<Rightarrow> int" where
  "major_offset k = [0, 2, 4, 5, 7, 9, 11] ! nat (k - 1)"

definition spec_pitch_class :: "int \<Rightarrow> int \<times> int \<Rightarrow> int" where
  "spec_pitch_class rootIndex d =
     (case d of (degree, shift) \<Rightarrow>
        (rootIndex + major_offset (((degree - 1) mod 7) + 1) + shift) mod 12)"

text \<open>
  The raw tones of a scale over a root index: tone \<open>k\<close> lies the sum of the first \<open>k\<close>
  steps above the root, modulo 12; \<open>N\<close> steps give \<open>N + 1\<close> tones.
\<close>

definition scale_tones :: "int \<Rightarrow> int list \<Rightarrow> pystr list" where
  "scale_tones root_idx steps =
     map (\<lambda>k. CHROMATIC_SHARPS ! nat ((root_idx + sum_list (take k steps)) mod 12))
       [0 ..< Suc (length steps)]"

text \<open>The output spelling of \<open>generate_scale\<close>: \<^verbatim>\<open>SHARP_TO_FLAT.get(n, n)\<close> under the flag.\<close>

definition spell :: "bool \<Rightarrow> pystr \<Rightarrow> pystr" where
  "spell use_flats n =
     (if use_flats then (case map_of SHARP_TO_FLAT n of Some fl \<Rightarrow> fl | None \<Rightarrow> n) else n)"

text \<open>
  The token that \<open>parse_degree_token\<close> reads: trimmed, with U+266D and U+266F replaced
  by \<open>b\<close> and \<open>#\<close>.
\<close>

definition canonical_token :: "pystr \<Rightarrow> pystr" where
  "canonical_token token =
     replace_char 0x266F (str ''#'') (replace_char 0x266D (str ''b'') (strip token))"

text \<open>
  The shift of a run of accidentals as the specification counts it: minus one for every
  \<open>b\<close>, one for every \<open>#\<close>, two for every \<open>x\<close>.
\<close>

definition spec_shift :: "pystr \<Rightarrow> int" where
  "spec_shift acc =
     int (count_list acc (cp (CHR ''#''))) + 2 * int (count_list acc (cp (CHR ''x'')))
       - int (count_list acc (cp (CHR ''b'')))"

text \<open>The decimal value of a digit run: the last digit counts once, the one before ten times.\<close>

fun decimal_rev :: "pystr \<Rightarrow> int" where
  "decimal_rev [] = 0"
| "decimal_rev (c # cs) = digit_value c + 10 * decimal_rev cs"

definition decimal_value :: "pystr \<Rightarrow> int" where
  "decimal_value ds = decimal_rev (rev ds)"

section \<open>Deduplication\<close>

lemma set_first_occurrences: "set (first_occurrences xs) = set xs"
  by (induction xs) auto

lemma distinct_first_occurrences: "distinct (first_occurrences xs)"
  by (induction xs) (auto simp: set_first_occurrences)

lemma unique_loop_eq:
  "unique_loop seen out items = out @ filter (\<lambda>x. x \<notin> seen) (first_occurrences items)"
proof (induction items arbitrary: seen out)
  case Nil
  then show ?case by simp
next
  case (Cons x items)
  show ?case
  proof (cases "x \<in> seen")
    case True
    have "filter (\<lambda>y. y \<notin> seen) (filter (\<lambda>y. y \<noteq> x) (first_occurrences items))
          = filter (\<lambda>y. y \<notin> seen) (first_occurrences items)"
      using True by (auto intro: filter_cong)
    with True Cons.IH show ?thesis by simp
  next
    case False
    have "filter (\<lambda>y. y \<notin> insert x seen) (first_occurrences items)
          = filter (\<lambda>y. y \<notin> seen) (filter (\<lambda>y. y \<noteq> x) (first_occurrences items))"
      by (auto intro: filter_cong)
    with False Cons.IH show ?thesis by simp
  qed
qed

lemma unique_preserve_order_eq: "unique_preserve_order items = first_occurrences items"
  by (simp add: unique_preserve_order_def unique_loop_eq)

section \<open>Blank text has no tokens\<close>

lemma split_from_all_space: "\<forall>c\<in>set s. isspace c \<Longrightarrow> split_from [] s = []"
  by (induction s) auto

lemma space_isspace: "isspace (cp (CHR '' ''))"
  by code_simp

lemma replace_char_step:
  "replace_char old new (x # s) = (if x = old then new else [x]) @ replace_char old new s"
  by (simp add: replace_char_def)

lemma replace_comma_all_space:
  "\<forall>c\<in>set s. isspace c \<or> c = cp (CHR '','') \<Longrightarrow>
   \<forall>c\<in>set (replace_char (cp (CHR '','')) (str '' '') s). isspace c"
proof (induction s)
  case Nil
  then show ?case by (simp add: replace_char_def)
next
  case (Cons a s)
  then have "\<forall>c\<in>set (replace_char (cp (CHR '','')) (str '' '') s). isspace c" by simp
  moreover from Cons.prems have "isspace a \<or> a = cp (CHR '','')" by simp
  ultimately show ?case using space_isspace
    by (auto simp: replace_char_step)
qed

lemma raw_tokens_blank:
  assumes "\<forall>c\<in>set s. isspace c \<or> c = cp (CHR '','')"
  shows "raw_tokens s = []"
proof -
  from assms have "\<forall>c\<in>set (replace_char (cp (CHR '','')) (str '' '') s). isspace c"
    by (rule replace_comma_all_space)
  then have "split_from [] (replace_char (cp (CHR '','')) (str '' '') s) = []"
    by (rule split_from_all_space)
  then show ?thesis by (simp add: raw_tokens_def split_def)
qed

section \<open>Normalised names\<close>

lemma normalize_note_unfold:
  "normalize_note note use_flats =
     (if clean_note note = [] then Inl Empty_note
      else lookup_spelling note (cut_spelling (clean_note note)) use_flats)"
  by (simp add: normalize_note_def clean_note_def cut_spelling_def lookup_spelling_def Let_def)

lemma sharps_index_dom:
  "map_of NOTE_TO_INDEX_SHARPS m \<noteq> None \<Longrightarrow> m \<in> set CHROMATIC_SHARPS"
  by (auto simp: NOTE_TO_INDEX_SHARPS_def enumerate_index_def CHROMATIC_SHARPS_def
           split: if_splits)

lemma sharp_spelled:
  "m \<in> set CHROMATIC_SHARPS \<Longrightarrow>
   (case map_of SHARP_TO_FLAT m of Some fl \<Rightarrow> fl | None \<Rightarrow> m) \<in> set CHROMATIC_FLATS"
  by (auto simp: CHROMATIC_SHARPS_def CHROMATIC_FLATS_def SHARP_TO_FLAT_def)

lemma lookup_spelling_range:
  assumes "lookup_spelling note n use_flats = Inr r"
  shows "r \<in> set (chromatic_names use_flats)"
proof -
  define m where
    "m = (case map_of ENHARMONIC (case map_of FLAT_TO_SHARP n of Some s \<Rightarrow> s | None \<Rightarrow> n)
          of Some s \<Rightarrow> s
           | None \<Rightarrow> (case map_of FLAT_TO_SHARP n of Some s \<Rightarrow> s | None \<Rightarrow> n))"
  from assms have ok: "map_of NOTE_TO_INDEX_SHARPS m \<noteq> None"
    and r: "r = (if use_flats then (case map_of SHARP_TO_FLAT m of Some fl \<Rightarrow> fl | None \<Rightarrow> m)
                 else m)"
    by (auto simp: lookup_spelling_def Let_def m_def split: if_splits option.splits)
  from ok have "m \<in> set CHROMATIC_SHARPS" by (rule sharps_index_dom)
  with r sharp_spelled [of m] show ?thesis
    by (simp add: chromatic_names_def)
qed

lemma normalize_note_range:
  "normalize_note note use_flats = Inr r \<Longrightarrow> r \<in> set (chromatic_names use_flats)"
  by (auto simp: normalize_note_unfold split: if_splits dest: lookup_spelling_range)

lemma normalize_sharps_fixed: "\<forall>r\<in>set CHROMATIC_SHARPS. normalize_note r False = Inr r"
  by code_simp

lemma normalize_flats_fixed: "\<forall>r\<in>set CHROMATIC_FLATS. normalize_note r True = Inr r"
  by code_simp

lemma normalize_chromatic_fixed:
  "r \<in> set (chromatic_names use_flats) \<Longrightarrow> normalize_note r use_flats = Inr r"
  using normalize_sharps_fixed normalize_flats_fixed
  by (cases use_flats) (simp_all add: chromatic_names_def)

lemma enharmonic_same_index:
  "\<forall>f\<in>set [False, True]. \<forall>g\<in>set [False, True].
     \<forall>(a, b)\<in>set (SHARP_TO_FLAT @ FLAT_TO_SHARP @ ENHARMONIC).
       pitch_class_of a f \<noteq> None \<and> pitch_class_of a f = pitch_class_of b g"
  by code_simp

section \<open>Characters after the letter and its accidental\<close>

lemma letter_facts:
  "\<forall>c\<in>set (str ''ABCDEFGabcdefg'').
     upper_char c = [hd (upper_char c)] \<and> hd (upper_char c) \<in> set (str ''ABCDEFG'') \<and>
     \<not> isspace c"
  by code_simp

lemma acc_upper_facts:
  "\<forall>a\<in>set (str ''#bB'').
     upper_char a = [hd (upper_char a)] \<and> hd (upper_char a) \<in> set (str ''#B'') \<and>
     \<not> isspace a"
  by code_simp

lemma upper_special_facts:
  "\<forall>(a, u)\<in>set UPPER_SPECIAL.
     u \<noteq> [] \<and> cp (CHR '' '') \<notin> set u \<and> hd u \<notin> set (str ''#B'')"
  by code_simp

lemma upper_char_other:
  assumes "a \<notin> set (str ''#bB '')"
  shows "upper_char a \<noteq> [] \<and> cp (CHR '' '') \<notin> set (upper_char a) \<and>
         hd (upper_char a) \<notin> set (str ''#B'')"
proof (cases "cp (CHR ''a'') \<le> a \<and> a \<le> cp (CHR ''z'')")
  case True
  with assms show ?thesis by (auto simp: upper_char_def)
next
  case False
  show ?thesis
  proof (cases "map_of UPPER_SPECIAL a")
    case None
    with False assms show ?thesis by (auto simp: upper_char_def)
  next
    case (Some u)
    then have "(a, u) \<in> set UPPER_SPECIAL" by (rule map_of_SomeD)
    with upper_special_facts
    have "u \<noteq> [] \<and> cp (CHR '' '') \<notin> set u \<and> hd u \<notin> set (str ''#B'')"
      by blast
    with False Some show ?thesis by (auto simp: upper_char_def)
  qed
qed

lemma letter_upper:
  "c \<in> set (str ''ABCDEFGabcdefg'') \<Longrightarrow> hd (upper_char c) \<in> set (str ''ABCDEFG'')"
  using letter_facts by blast

lemma letter_upper_single:
  "c \<in> set (str ''ABCDEFGabcdefg'') \<Longrightarrow> upper_char c = [hd (upper_char c)]"
  using letter_facts by blast

lemma letter_not_space: "c \<in> set (str ''ABCDEFGabcdefg'') \<Longrightarrow> \<not> isspace c"
  using letter_facts by blast

lemma rstrip_Cons:
  "rstrip (a # s) = (if \<forall>x\<in>set (a # s). isspace x then [] else a # rstrip s)"
  by (auto simp: rstrip_def dropWhile_append)

lemma rstrip_Nil: "rstrip [] = []"
  by (simp add: rstrip_def)

lemma strip_Cons: "\<not> isspace c \<Longrightarrow> strip (c # s) = c # rstrip s"
  by (simp add: strip_def lstrip_def rstrip_Cons)

lemma replace_char_id: "old \<notin> set t \<Longrightarrow> replace_char old new t = t"
  by (induction t) (auto simp: replace_char_def)

lemma replace_char_Cons:
  "x \<noteq> old \<Longrightarrow> replace_char old new (x # s) = x # replace_char old new s"
  by (simp add: replace_char_def)

lemma replace_char_append:
  "replace_char old new (s @ t) = replace_char old new s @ replace_char old new t"
  by (simp add: replace_char_def)

lemma upper_Cons: "upper (a # s) = upper_char a @ upper s"
  by (simp add: upper_def)

lemma upper_Nil: "upper [] = []"
  by (simp add: upper_def)

lemma replace_char_Nil: "replace_char old new [] = []"
  by (simp add: replace_char_def)

lemma clean_note_letter:
  assumes "c \<in> set (str ''ABCDEFGabcdefg'')"
  shows "clean_note (c # s) =
           hd (upper_char c) # replace_char (cp (CHR '' '')) [] (upper (rstrip s))"
proof -
  from assms letter_upper have "hd (upper_char c) \<in> set (str ''ABCDEFG'')" by blast
  then have ne: "hd (upper_char c) \<noteq> cp (CHR '' '')" by auto
  have "upper (c # rstrip s) = hd (upper_char c) # upper (rstrip s)"
    using letter_upper_single [OF assms] by (simp add: upper_Cons)
  then have "replace_char (cp (CHR '' '')) [] (upper (c # rstrip s))
             = hd (upper_char c) # replace_char (cp (CHR '' '')) [] (upper (rstrip s))"
    using replace_char_Cons [OF ne] by simp
  then show ?thesis
    by (simp only: clean_note_def strip_Cons [OF letter_not_space [OF assms]])
qed

lemma cut_spelling_cases:
  "cut_spelling (u # m) \<in> set [[u], [u, cp (CHR ''#'')], [u, cp (CHR ''b'')]]"
  by (auto simp: cut_spelling_def)

lemma letter_spellings_valid:
  "\<forall>use_flats\<in>set [False, True]. \<forall>u\<in>set (str ''ABCDEFG'').
     \<forall>sp\<in>set [[u], [u, cp (CHR ''#'')], [u, cp (CHR ''b'')]].
       lookup_spelling [] sp use_flats \<noteq> Inl (Unsupported_note [])"
  by code_simp

lemma lookup_spelling_payload:
  "lookup_spelling note sp use_flats =
     (case lookup_spelling [] sp use_flats of
        Inl e \<Rightarrow> Inl (Unsupported_note note)
      | Inr p \<Rightarrow> Inr p)"
  by (simp add: lookup_spelling_def Let_def split: option.splits)

lemma lookup_spelling_letter:
  assumes "u \<in> set (str ''ABCDEFG'')"
    and "sp \<in> set [[u], [u, cp (CHR ''#'')], [u, cp (CHR ''b'')]]"
  shows "\<exists>p. \<forall>note. lookup_spelling note sp use_flats = Inr p"
proof -
  have "use_flats \<in> set [False, True]" by simp
  with letter_spellings_valid assms
  have ne: "lookup_spelling [] sp use_flats \<noteq> Inl (Unsupported_note [])"
    by blast
  have "\<And>e. lookup_spelling [] sp use_flats = Inl e \<Longrightarrow> e = Unsupported_note []"
    by (auto simp: lookup_spelling_def Let_def split: if_splits option.splits)
  with ne obtain p where "lookup_spelling [] sp use_flats = Inr p"
    by (cases "lookup_spelling [] sp use_flats") auto
  then have "\<forall>note. lookup_spelling note sp use_flats = Inr p"
    by (subst lookup_spelling_payload) simp
  then show ?thesis ..
qed

lemma normalize_note_letter:
  assumes "c \<in> set (str ''ABCDEFGabcdefg'')"
  shows "\<exists>p. normalize_note (c # rest) use_flats = Inr p"
proof -
  let ?u = "hd (upper_char c)"
  obtain m where n: "clean_note (c # rest) = ?u # m"
    using clean_note_letter [OF assms] by blast
  from lookup_spelling_letter [OF letter_upper [OF assms] cut_spelling_cases [of ?u m]]
  show ?thesis
    by (auto simp: normalize_note_unfold n)
qed

lemma normalize_note_by_spelling:
  assumes "c \<in> set (str ''ABCDEFGabcdefg'')"
    and "cut_spelling (clean_note (c # s)) = cut_spelling (clean_note (c # s'))"
  shows "normalize_note (c # s) use_flats = normalize_note (c # s') use_flats"
proof -
  let ?u = "hd (upper_char c)"
  obtain m where n: "clean_note (c # s) = ?u # m"
    using clean_note_letter [OF assms(1)] by blast
  obtain m' where n': "clean_note (c # s') = ?u # m'"
    using clean_note_letter [OF assms(1)] by blast
  from lookup_spelling_letter [OF letter_upper [OF assms(1)] cut_spelling_cases [of ?u m]]
  obtain p where "\<forall>note. lookup_spelling note (cut_spelling (?u # m)) use_flats = Inr p"
    by blast
  with assms(2) show ?thesis
    by (simp add: normalize_note_unfold n n')
qed

lemma cut_spelling_second:
  "cut_spelling (u # x # m) =
     (if x = cp (CHR ''B'') then [u, cp (CHR ''b'')]
      else if x = cp (CHR ''#'') then [u, cp (CHR ''#'')] else [u])"
  by (simp add: cut_spelling_def)

lemma cut_spelling_single: "cut_spelling [u] = [u]"
  by (simp add: cut_spelling_def)

lemma cut_letter_acc:
  assumes "c \<in> set (str ''ABCDEFGabcdefg'')" "a \<in> set (str ''#bB'')"
  shows "cut_spelling (clean_note (c # a # rest)) = cut_spelling (clean_note [c, a])"
proof -
  let ?x = "hd (upper_char a)"
  from assms(2) acc_upper_facts have ns: "\<not> isspace a" and u: "upper_char a = [?x]"
    and x: "?x \<in> set (str ''#B'')"
    by blast+
  from x have ne: "?x \<noteq> cp (CHR '' '')" by auto
  have "\<And>s. upper (a # s) = ?x # upper s"
    using u by (simp add: upper_Cons)
  then have k: "\<And>s. replace_char (cp (CHR '' '')) [] (upper (a # s))
                  = ?x # replace_char (cp (CHR '' '')) [] (upper s)"
    using replace_char_Cons [OF ne] by simp
  from ns have r: "rstrip (a # rest) = a # rstrip rest" "rstrip [a] = [a]"
    by (simp_all add: rstrip_Cons rstrip_Nil)
  show ?thesis
    by (simp only: clean_note_letter [OF assms(1)] r k cut_spelling_second)
qed

lemma cut_letter_other:
  assumes "c \<in> set (str ''ABCDEFGabcdefg'')" "a \<notin> set (str ''#bB '')"
  shows "cut_spelling (clean_note (c # a # rest)) = cut_spelling (clean_note [c])"
proof -
  let ?u = "hd (upper_char c)"
  have one: "cut_spelling (clean_note [c]) = [?u]"
    by (simp only: clean_note_letter [OF assms(1)] rstrip_Nil upper_Nil replace_char_Nil
                   cut_spelling_single)
  show ?thesis
  proof (cases "\<forall>x\<in>set (a # rest). isspace x")
    case True
    then have "rstrip (a # rest) = []" by (simp add: rstrip_Cons)
    then show ?thesis
      by (simp only: clean_note_letter [OF assms(1)] rstrip_Nil upper_Nil replace_char_Nil
                     cut_spelling_single)
  next
    case False
    then have r: "rstrip (a # rest) = a # rstrip rest" by (simp add: rstrip_Cons)
    from upper_char_other [OF assms(2)]
    obtain x w where w: "upper_char a = x # w" and sp: "cp (CHR '' '') \<notin> set (x # w)"
      and x: "x \<notin> set (str ''#B'')"
      by (cases "upper_char a") auto
    from sp have i: "replace_char (cp (CHR '' '')) [] (x # w) = x # w"
      by (rule replace_char_id)
    have e: "upper (a # rstrip rest) = (x # w) @ upper (rstrip rest)"
      by (simp add: upper_Cons w)
    have "replace_char (cp (CHR '' '')) [] ((x # w) @ upper (rstrip rest))
          = replace_char (cp (CHR '' '')) [] (x # w)
            @ replace_char (cp (CHR '' '')) [] (upper (rstrip rest))"
      by (rule replace_char_append)
    with i e have k: "replace_char (cp (CHR '' '')) [] (upper (a # rstrip rest))
                      = x # (w @ replace_char (cp (CHR '' '')) [] (upper (rstrip rest)))"
      by simp
    from x have "x \<noteq> cp (CHR ''B'')" "x \<noteq> cp (CHR ''#'')" by auto
    then show ?thesis
      by (simp only: clean_note_letter [OF assms(1)] r k rstrip_Nil upper_Nil replace_char_Nil
                     cut_spelling_single cut_spelling_second if_False)
  qed
qed

section \<open>The index of a valid root\<close>

lemma chromatic_index_facts:
  "\<forall>f\<in>set [False, True]. \<forall>n\<in>set (chromatic_names f).
     (case map_of (if f then NOTE_TO_INDEX_FLATS else NOTE_TO_INDEX_SHARPS) n of
        None \<Rightarrow> False
      | Some i \<Rightarrow> 0 \<le> i \<and> i < 12 \<and> chromatic_names f ! nat i = n)"
  by code_simp

lemma pitch_class_of_valid:
  assumes "normalize_note root use_flats = Inr root_n"
  shows "\<exists>i. pitch_class_of root use_flats = Some i \<and> 0 \<le> i \<and> i < 12 \<and>
             chromatic_names use_flats ! nat i = root_n"
proof -
  have "use_flats \<in> set [False, True]" by simp
  moreover have "root_n \<in> set (chromatic_names use_flats)"
    using assms by (rule normalize_note_range)
  ultimately have
    "case map_of (if use_flats then NOTE_TO_INDEX_FLATS else NOTE_TO_INDEX_SHARPS) root_n of
       None \<Rightarrow> False
     | Some i \<Rightarrow> 0 \<le> i \<and> i < 12 \<and> chromatic_names use_flats ! nat i = root_n"
    using chromatic_index_facts by blast
  then show ?thesis
    using assms by (auto simp: pitch_class_of_def split: option.splits)
qed

lemma pitch_class_of_SomeD:
  assumes "pitch_class_of root use_flats = Some i"
  shows "\<exists>root_n. normalize_note root use_flats = Inr root_n \<and>
           map_of (if use_flats then NOTE_TO_INDEX_FLATS else NOTE_TO_INDEX_SHARPS) root_n = Some i \<and>
           0 \<le> i \<and> i < 12 \<and> chromatic_names use_flats ! nat i = root_n"
proof -
  from assms obtain root_n where n: "normalize_note root use_flats = Inr root_n"
    and m: "map_of (if use_flats then NOTE_TO_INDEX_FLATS else NOTE_TO_INDEX_SHARPS) root_n = Some i"
    by (auto simp: pitch_class_of_def split: sum.splits)
  from pitch_class_of_valid [OF n] assms n m show ?thesis by auto
qed

section \<open>Degrees\<close>

lemma base_offset_facts:
  "\<forall>m\<in>set [0, 1, 2, 3, 4, 5, 6 :: int].
     map_of DEGREE_BASE_OFFSETS (m + 1) = Some (major_offset (m + 1))"
  by code_simp

lemma base_offset_wrapped:
  "map_of DEGREE_BASE_OFFSETS (((deg - 1) mod 7) + 1) =
     Some (major_offset (((deg - 1) mod 7) + 1))"
proof -
  have "0 \<le> (deg - 1) mod 7" "(deg - 1) mod 7 < 7" by simp_all
  then have "(deg - 1) mod 7 \<in> set [0, 1, 2, 3, 4, 5, 6 :: int]"
    by (simp; arith)
  with base_offset_facts show ?thesis by blast
qed

lemma degree_note_parsed:
  assumes "parse_degree_token tok = Inr d"
  shows "degree_note chromatic root_idx tok =
           Inr (chromatic ! nat (spec_pitch_class root_idx d))"
proof -
  obtain deg shift where d: "d = (deg, shift)" by (cases d)
  have "(root_idx + (major_offset (((deg - 1) mod 7) + 1) + shift) mod 12) mod 12
        = (root_idx + major_offset (((deg - 1) mod 7) + 1) + shift) mod 12"
    by (simp add: mod_add_right_eq add.assoc)
  then show ?thesis
    using assms
    by (simp add: degree_note_def d base_offset_wrapped spec_pitch_class_def Let_def)
qed

lemma map_result_degree_notes:
  "map parse_degree_token toks = map Inr ds \<Longrightarrow>
   map_result (degree_note chromatic root_idx) toks =
     Inr (map (\<lambda>d. chromatic ! nat (spec_pitch_class root_idx d)) ds)"
proof (induction toks arbitrary: ds)
  case Nil
  then show ?case by simp
next
  case (Cons tok toks)
  then obtain d ds' where ds: "ds = d # ds'" and t: "parse_degree_token tok = Inr d"
    and r: "map parse_degree_token toks = map Inr ds'"
    by (cases ds) auto
  from Cons.IH [OF r] degree_note_parsed [OF t] show ?case
    by (simp add: ds)
qed

lemma spec_pitch_class_range:
  "0 \<le> spec_pitch_class rootIndex d \<and> spec_pitch_class rootIndex d < 12"
  by (cases d) (simp add: spec_pitch_class_def)

section \<open>The walk along the steps\<close>

lemma scale_walk_eq:
  "scale_walk idx steps =
     map (\<lambda>k. CHROMATIC_SHARPS ! nat ((idx + sum_list (take (Suc k) steps)) mod 12))
       [0 ..< length steps]"
proof (induction steps arbitrary: idx)
  case Nil
  then show ?case by simp
next
  case (Cons st steps)
  have "\<And>k. ((idx + st) mod 12 + sum_list (take (Suc k) steps)) mod 12
            = (idx + (st + sum_list (take (Suc k) steps))) mod 12"
    by (simp add: mod_add_left_eq add.assoc)
  then show ?case
    by (simp add: Cons.IH Let_def upt_conv_Cons map_Suc_upt [symmetric] del: upt_Suc)
qed

lemma scale_tones_eq:
  assumes "0 \<le> root_idx" "root_idx < 12" "CHROMATIC_SHARPS ! nat root_idx = root_n"
  shows "root_n # scale_walk root_idx steps = scale_tones root_idx steps"
proof -
  have "[0 ..< Suc (length steps)] = 0 # map Suc [0 ..< length steps]"
    by (simp add: upt_conv_Cons map_Suc_upt del: upt_Suc)
  then show ?thesis
    using assms by (simp add: scale_tones_def scale_walk_eq comp_def del: upt_Suc)
qed

section \<open>Degree tokens\<close>

lemma parse_degree_token_unfold:
  "parse_degree_token token =
     (if strip token = [] then Inl Empty_degree_token
      else if lower (canonical_token token) \<in> set [str ''r'', str ''root''] then Inr (1, 0)
      else if dropWhile is_acc (canonical_token token) = []
              \<or> \<not> isdigit (hd (dropWhile is_acc (canonical_token token)))
           then Inl (Invalid_degree_token token)
      else if dropWhile is_acc (dropWhile isdigit (dropWhile is_acc (canonical_token token)))
              \<noteq> []
           then Inl (Invalid_degree_token token)
      else (case int_of_digits (takeWhile isdigit (dropWhile is_acc (canonical_token token)))
            of Inl e \<Rightarrow> Inl e
             | Inr degree \<Rightarrow>
                 Inr (degree,
                      acc_shift (takeWhile is_acc (canonical_token token) @
                                 takeWhile is_acc
                                   (dropWhile isdigit
                                      (dropWhile is_acc (canonical_token token)))))))"
  by (simp add: parse_degree_token_def canonical_token_def Let_def split: sum.splits)

lemma acc_facts:
  "\<forall>c\<in>set (str ''b#x''). \<not> isdigit c \<and> \<not> isspace c \<and> c \<noteq> 0x266D \<and> c \<noteq> 0x266F"
  by code_simp

lemma space_not_digit: "\<forall>c\<in>set WHITESPACE. \<not> isdigit c"
  by code_simp

lemma signs_not_digit: "\<not> isdigit 0x266D \<and> \<not> isdigit 0x266F"
  by code_simp

lemma root_letter_facts:
  "\<forall>c\<in>set (str ''rotROT''). \<not> isdigit c \<and> \<not> isspace c \<and> c \<noteq> 0x266D \<and> c \<noteq> 0x266F"
  by code_simp

lemma root_letters: "lower_char c \<in> set (str ''rot'') \<Longrightarrow> c \<in> set (str ''rotROT'')"
  by (auto simp: lower_char_def split: if_splits)

lemma is_acc_facts:
  "is_acc c \<Longrightarrow> \<not> isdigit c \<and> \<not> isspace c \<and> c \<noteq> 0x266D \<and> c \<noteq> 0x266F"
  using acc_facts unfolding is_acc_def by blast

lemma isdigit_facts:
  assumes "isdigit c"
  shows "\<not> is_acc c \<and> \<not> isspace c \<and> c \<noteq> 0x266D \<and> c \<noteq> 0x266F \<and>
         lower_char c \<notin> set (str ''rot'')"
proof -
  have "\<not> is_acc c" using assms is_acc_facts by blast
  moreover have "\<not> isspace c" using assms space_not_digit unfolding isspace_def by blast
  moreover have "c \<noteq> 0x266D \<and> c \<noteq> 0x266F" using assms signs_not_digit by blast
  moreover have "lower_char c \<notin> set (str ''rot'')"
    using assms root_letters [of c] root_letter_facts by blast
  ultimately show ?thesis by blast
qed

lemma isdecimal_isdigit: "isdecimal c \<Longrightarrow> isdigit c"
  by (simp add: isdigit_def)

lemma dropWhile_none: "\<forall>c\<in>set t. \<not> P c \<Longrightarrow> dropWhile P t = t"
  by (cases t) auto

lemma strip_id:
  assumes "\<forall>c\<in>set t. \<not> isspace c"
  shows "strip t = t"
proof -
  from assms have "lstrip t = t" by (simp add: lstrip_def dropWhile_none)
  moreover from assms have "dropWhile isspace (rev t) = rev t"
    by (intro dropWhile_none) simp
  ultimately show ?thesis by (simp add: strip_def rstrip_def)
qed

lemma canonical_token_id:
  assumes "\<forall>c\<in>set t. \<not> isspace c \<and> c \<noteq> 0x266D \<and> c \<noteq> 0x266F"
  shows "canonical_token t = t"
proof -
  from assms have "strip t = t" by (simp add: strip_id)
  moreover from assms have "0x266D \<notin> set t" "0x266F \<notin> set t" by blast+
  ultimately show ?thesis by (simp add: canonical_token_def replace_char_id)
qed

lemma canonical_token_Nil: "strip token = [] \<Longrightarrow> canonical_token token = []"
  by (simp add: canonical_token_def replace_char_def)

lemma acc_shift_foldl:
  "foldl (\<lambda>shift ch. if ch = cp (CHR ''b'') then shift - 1
                      else if ch = cp (CHR ''#'') then shift + 1
                      else if ch = cp (CHR ''x'') then shift + 2
                      else shift) v acc = v + spec_shift acc"
  by (induction acc arbitrary: v) (simp_all add: spec_shift_def)

lemma acc_shift_eq: "acc_shift acc = spec_shift acc"
  using acc_shift_foldl [of 0 acc] unfolding acc_shift_def by simp

lemma foldl_decimal_value:
  "foldl (\<lambda>v c. 10 * v + digit_value c) 0 ds = decimal_value ds"
  by (induction ds rule: rev_induct) (simp_all add: decimal_value_def)

lemma int_of_digits_decimal:
  assumes "\<forall>c\<in>set d. isdecimal c" "length d \<le> 4300"
  shows "int_of_digits d = Inr (decimal_value d)"
  using assms by (auto simp: int_of_digits_def MAX_STR_DIGITS_def foldl_decimal_value)

lemma int_of_digits_InrD:
  assumes "int_of_digits d = Inr v"
  shows "(\<forall>c\<in>set d. isdecimal c) \<and> length d \<le> 4300 \<and> v = decimal_value d"
  using assms
  by (auto simp: int_of_digits_def MAX_STR_DIGITS_def foldl_decimal_value split: if_splits)

lemma parse_degree_token_root:
  assumes "lower (canonical_token token) \<in> set [str ''r'', str ''root'']"
  shows "parse_degree_token token = Inr (1, 0)"
proof -
  from assms have "canonical_token token \<noteq> []" by (auto simp: lower_def)
  then have "strip token \<noteq> []" using canonical_token_Nil by blast
  with assms show ?thesis by (simp add: parse_degree_token_unfold)
qed

lemma parse_degree_token_grammar:
  assumes c: "canonical_token token = p @ d @ s"
    and p: "\<forall>c\<in>set p. is_acc c"
    and d: "d \<noteq> []" "\<forall>c\<in>set d. isdecimal c" "length d \<le> 4300"
    and s: "\<forall>c\<in>set s. is_acc c"
  shows "parse_degree_token token = Inr (decimal_value d, spec_shift (p @ s))"
proof -
  from d(2) have dg: "\<forall>c\<in>set d. isdigit c" using isdecimal_isdigit by blast
  from d(1) dg obtain x d' where dx: "d = x # d'" and x: "isdigit x"
    by (cases d) auto
  from isdigit_facts [OF x] have xa: "\<not> is_acc x" and xl: "lower_char x \<notin> set (str ''rot'')"
    by blast+
  from s is_acc_facts have sd: "\<forall>c\<in>set s. \<not> isdigit c" by blast
  have ne: "strip token \<noteq> []"
    using c d(1) canonical_token_Nil [of token] by auto
  have "lower_char x \<in> set (lower (canonical_token token))"
    by (simp add: c dx lower_def)
  with xl have nr: "lower (canonical_token token) \<notin> set [str ''r'', str ''root'']"
    by auto
  have tp: "takeWhile is_acc (p @ d @ s) = p" and dp: "dropWhile is_acc (p @ d @ s) = d @ s"
    using p xa by (simp_all add: dx takeWhile_append2 dropWhile_append2)
  have td: "takeWhile isdigit (d @ s) = d" and dd: "dropWhile isdigit (d @ s) = s"
    using dg sd by (cases s; simp add: takeWhile_append2 dropWhile_append2)+
  have ts: "takeWhile is_acc s = s" and ds: "dropWhile is_acc s = []"
    using s by simp_all
  have hd: "isdigit (hd (d @ s))" using x by (simp add: dx)
  have "d @ s \<noteq> []" using d(1) by simp
  with ne nr hd show ?thesis
    by (simp add: parse_degree_token_unfold c tp dp td dd ts ds acc_shift_eq
                  int_of_digits_decimal [OF d(2) d(3)])
qed

lemma parse_degree_token_accepted:
  assumes "parse_degree_token token = Inr r"
  shows "lower (canonical_token token) \<in> set [str ''r'', str ''root''] \<or>
         (\<exists>p d s. canonical_token token = p @ d @ s \<and> (\<forall>c\<in>set p. is_acc c) \<and> d \<noteq> [] \<and>
                   (\<forall>c\<in>set d. isdecimal c) \<and> length d \<le> 4300 \<and> (\<forall>c\<in>set s. is_acc c))"
proof (cases "lower (canonical_token token) \<in> set [str ''r'', str ''root'']")
  case True
  then show ?thesis by blast
next
  case False
  let ?t = "canonical_token token"
  let ?ap = "dropWhile is_acc ?t"
  let ?an = "dropWhile isdigit ?ap"
  from assms False have ap: "?ap \<noteq> []" and h: "isdigit (hd ?ap)"
    and e: "dropWhile is_acc ?an = []"
    and i: "\<exists>v. int_of_digits (takeWhile isdigit ?ap) = Inr v"
    by (auto simp: parse_degree_token_unfold split: if_splits sum.splits)
  have "?t = takeWhile is_acc ?t @ ?ap" by simp
  also have "?ap = takeWhile isdigit ?ap @ ?an" by simp
  also have "?an = takeWhile is_acc ?an" using e
    by (metis append_Nil2 takeWhile_dropWhile_id)
  finally have dec: "?t = takeWhile is_acc ?t @ takeWhile isdigit ?ap @ takeWhile is_acc ?an" .
  have "takeWhile isdigit ?ap \<noteq> []" using ap h by (cases ?ap) auto
  moreover from i int_of_digits_InrD
  have "(\<forall>c\<in>set (takeWhile isdigit ?ap). isdecimal c) \<and> length (takeWhile isdigit ?ap) \<le> 4300"
    by blast
  moreover have "\<forall>c\<in>set (takeWhile is_acc ?t). is_acc c"
    "\<forall>c\<in>set (takeWhile is_acc ?an). is_acc c"
    by (auto dest: set_takeWhileD)
  ultimately show ?thesis using dec by blast
qed
section \<open>Claims\<close>

text \<open>
  C1. The claim says that \<open>parse_notes_text\<close> returns the normalised pitch classes
  deduplicated, so that the tokens C, E, G, C give C, E, G. The function returns the
  normalised tokens as they come, the repeated C included: \<open>unique_preserve_order\<close> is
  applied by \<open>degrees_to_notes_text\<close> and \<open>generate_scale\<close> but not here.
\<close>

theorem parse_notes_text_keeps_duplicates:
  "parse_notes_text (str ''C E G C'') False = Inr [str ''C'', str ''E'', str ''G'', str ''C'']"
  by code_simp

text \<open>
  C3, as stated: the token \<open>3b#\<close> is rejected. It is accepted: the suffix run may hold
  any accidentals.
\<close>

theorem parse_degree_token_suffix_run_accepted:
  "parse_degree_token (str ''3b#'') \<noteq> Inl (Invalid_degree_token (str ''3b#''))"
  by code_simp

text \<open>
  C3, amended: \<open>parse_degree_token\<close> accepts the token \<open>3b#\<close> with degree 3 and
  shift 0, and the prefix and suffix token \<open>b3#\<close> yields degree 3 with shift 0 as well.
\<close>

theorem parse_degree_token_mixed_accidentals:
  "parse_degree_token (str ''3b#'') = Inr (3, 0) \<and> parse_degree_token (str ''b3#'') = Inr (3, 0)"
  by code_simp

text \<open>
  C9. For every text made of white space (any white space of Unicode) and commas only,
  the empty text included,
  \<open>parse_notes_text\<close> returns the empty list and no error, while
  \<open>degrees_to_notes_text\<close> fails on the same text for want of tokens.
\<close>

theorem parse_notes_text_blank:
  "\<forall>c\<in>set s. isspace c \<or> c = (cp (CHR '','')) \<Longrightarrow>
   parse_notes_text s use_flats = Inr [] \<and>
   degrees_to_notes_text s root use_flats = Inl No_degree_tokens_provided"
  by (simp add: parse_notes_text_def degrees_to_notes_text_def raw_tokens_blank)

theorem parse_notes_text_blank_witness:
  "list_all (\<lambda>c. isspace c \<or> c = cp (CHR '','')) [0x2003, 0x2C, 0xA0, 0x20, 0x09] \<and>
   parse_notes_text [0x2003, 0x2C, 0xA0, 0x20, 0x09] True = Inr [] \<and>
   degrees_to_notes_text [0x2003, 0x2C, 0xA0, 0x20, 0x09] (str ''C'') True
     = Inl No_degree_tokens_provided \<and>
   parse_notes_text [] False = Inr []"
proof -
  have l: "list_all (\<lambda>c. isspace c \<or> c = cp (CHR '','')) [0x2003, 0x2C, 0xA0, 0x20, 0x09]"
    by code_simp
  then have h: "\<forall>c\<in>set [0x2003, 0x2C, 0xA0, 0x20, 0x09]. isspace c \<or> c = cp (CHR '','')"
    unfolding list_all_iff .
  have e: "\<forall>c\<in>set ([] :: pystr). isspace c \<or> c = cp (CHR '','')"
    by simp
  from parse_notes_text_blank [OF h, of True "str ''C''"]
  have a: "parse_notes_text [0x2003, 0x2C, 0xA0, 0x20, 0x09] True = Inr []"
    and b: "degrees_to_notes_text [0x2003, 0x2C, 0xA0, 0x20, 0x09] (str ''C'') True
            = Inl No_degree_tokens_provided"
    by blast+
  from parse_notes_text_blank [OF e, of False "str ''C''"]
  have c: "parse_notes_text [] False = Inr []"
    by blast
  from l a b c show ?thesis by blast
qed

text \<open>
  C10. The token \<open>0\<close> is accepted with degree 0 and shift 0; the wrap
  \<open>((0 - 1) mod 7) + 1\<close> is 7, whose base offset is 11, so the token \<open>0\<close> over the root
  C resolves to B.
\<close>

theorem degree_zero_accepted:
  "parse_degree_token (str ''0'') = Inr (0, 0) \<and>
   ((0 - 1) mod 7) + 1 = (7 :: int) \<and>
   map_of DEGREE_BASE_OFFSETS 7 = Some 11 \<and>
   degrees_to_notes_text (str ''0'') (str ''C'') False = Inr [str ''B'']"
  by code_simp

text \<open>
  C2, as stated: the texts \<open>C##\<close>, \<open>Cbb\<close> and \<open>Cx\<close> fail. None does: \<open>C##\<close>
  normalises to \<open>C#\<close>.
\<close>

theorem normalize_note_double_sharp_accepted:
  "normalize_note (str ''C##'') False = Inr (str ''C#'')"
  by code_simp

text \<open>
  C2, amended: a text that starts with a letter A to G, in either case, always
  normalises, whatever follows the letter. What follows the letter and one accidental
  (\<open>#\<close>, \<open>b\<close> or \<open>B\<close>) is ignored, and so is what follows a letter whose next character is
  neither an accidental nor a space: \<open>C##\<close> gives \<open>C#\<close>, \<open>Cbb\<close> gives \<open>B\<close>, \<open>Cx\<close>
  gives \<open>C\<close>.
\<close>

theorem normalize_note_ignores_rest:
  "c \<in> set (str ''ABCDEFGabcdefg'') \<Longrightarrow>
   (\<exists>p. normalize_note (c # rest) use_flats = Inr p) \<and>
   (a \<in> set (str ''#bB'') \<longrightarrow>
      normalize_note (c # a # rest) use_flats = normalize_note [c, a] use_flats) \<and>
   (a \<notin> set (str ''#bB '') \<longrightarrow>
      normalize_note (c # a # rest) use_flats = normalize_note [c] use_flats) \<and>
   normalize_note (str ''C##'') False = Inr (str ''C#'') \<and>
   normalize_note (str ''Cbb'') False = Inr (str ''B'') \<and>
   normalize_note (str ''Cx'') False = Inr (str ''C'')"
proof (intro conjI impI)
  assume c: "c \<in> set (str ''ABCDEFGabcdefg'')"
  show "\<exists>p. normalize_note (c # rest) use_flats = Inr p"
    using c by (rule normalize_note_letter)
  show "normalize_note (c # a # rest) use_flats = normalize_note [c, a] use_flats"
    if "a \<in> set (str ''#bB'')"
    using c cut_letter_acc [OF c that] by (rule normalize_note_by_spelling)
  show "normalize_note (c # a # rest) use_flats = normalize_note [c] use_flats"
    if "a \<notin> set (str ''#bB '')"
    using c cut_letter_other [OF c that] by (rule normalize_note_by_spelling)
  show "normalize_note (str ''C##'') False = Inr (str ''C#'')" by code_simp
  show "normalize_note (str ''Cbb'') False = Inr (str ''B'')" by code_simp
  show "normalize_note (str ''Cx'') False = Inr (str ''C'')" by code_simp
qed

theorem normalize_note_ignores_rest_witness:
  "(cp (CHR ''d'')) \<in> set (str ''ABCDEFGabcdefg'') \<and> (cp (CHR ''b'')) \<in> set (str ''#bB'') \<and>
   (cp (CHR ''x'')) \<notin> set (str ''#bB '') \<and>
   normalize_note (str ''db#9'') True = Inr (str ''Db'') \<and>
   normalize_note (str ''dx#9'') True = Inr (str ''D'')"
proof -
  have c: "(cp (CHR ''d'')) \<in> set (str ''ABCDEFGabcdefg'')" by simp
  have "normalize_note (str ''db'') True = Inr (str ''Db'')" by code_simp
  moreover have "normalize_note (str ''d'') True = Inr (str ''D'')" by code_simp
  ultimately show ?thesis
    using normalize_note_ignores_rest [OF c, of "(str ''b#9'')" True "(cp (CHR ''b''))"]
      normalize_note_ignores_rest [OF c, of "(str ''x#9'')" True "(cp (CHR ''x''))"]
      normalize_note_ignores_rest [OF c, of "(str ''#9'')" True "(cp (CHR ''b''))"]
      normalize_note_ignores_rest [OF c, of "(str ''#9'')" True "(cp (CHR ''x''))"]
    by simp
qed

text \<open>
  C7. For every text that normalises under a flag, normalising the result under the same
  flag returns it unchanged. The two spellings of every pair of the tables
  \<open>SHARP_TO_FLAT\<close>, \<open>FLAT_TO_SHARP\<close> and \<open>ENHARMONIC\<close> have the same pitch-class index,
  whatever the flags; so have \<open>C#\<close> and \<open>Db\<close>, index 1.
\<close>

theorem normalize_note_idempotent:
  "(normalize_note n use_flats = Inr r \<longrightarrow> normalize_note r use_flats = Inr r) \<and>
   (\<forall>(a, b)\<in>set (SHARP_TO_FLAT @ FLAT_TO_SHARP @ ENHARMONIC).
      pitch_class_of a f \<noteq> None \<and> pitch_class_of a f = pitch_class_of b g) \<and>
   pitch_class_of (str ''C#'') f = Some 1 \<and> pitch_class_of (str ''Db'') g = Some 1"
proof (intro conjI impI)
  assume "normalize_note n use_flats = Inr r"
  then have "r \<in> set (chromatic_names use_flats)" by (rule normalize_note_range)
  then show "normalize_note r use_flats = Inr r" by (rule normalize_chromatic_fixed)
next
  have "f \<in> set [False, True]" "g \<in> set [False, True]" by simp_all
  with enharmonic_same_index
  show "\<forall>(a, b)\<in>set (SHARP_TO_FLAT @ FLAT_TO_SHARP @ ENHARMONIC).
          pitch_class_of a f \<noteq> None \<and> pitch_class_of a f = pitch_class_of b g"
    by blast
next
  have "\<forall>f\<in>set [False, True]. pitch_class_of (str ''C#'') f = Some 1" by code_simp
  then show "pitch_class_of (str ''C#'') f = Some 1" by (cases f) simp_all
next
  have "\<forall>g\<in>set [False, True]. pitch_class_of (str ''Db'') g = Some 1" by code_simp
  then show "pitch_class_of (str ''Db'') g = Some 1" by (cases g) simp_all
qed

theorem normalize_note_idempotent_witness:
  "normalize_note (str '' e b'') False = Inr (str ''D#'') \<and> normalize_note (str ''D#'') False = Inr (str ''D#'') \<and>
   (str ''F#'', str ''Gb'') \<in> set (SHARP_TO_FLAT @ FLAT_TO_SHARP @ ENHARMONIC) \<and>
   pitch_class_of (str ''F#'') False = pitch_class_of (str ''Gb'') True"
proof -
  have n: "normalize_note (str '' e b'') False = Inr (str ''D#'')" by code_simp
  have m: "(str ''F#'', str ''Gb'') \<in> set (SHARP_TO_FLAT @ FLAT_TO_SHARP @ ENHARMONIC)"
    by (simp add: SHARP_TO_FLAT_def)
  from normalize_note_idempotent [of "(str '' e b'')" False "(str ''D#'')" False True] n m
  show ?thesis by blast
qed

text \<open>
  C4. A text without tokens makes \<open>degrees_to_notes_text\<close> fail for want of tokens. A
  root that normalises has a pitch-class index. For a text with at least one token, a
  root of index \<open>rootIndex\<close> and tokens that parse to the degree and shift pairs \<open>ds\<close>,
  the result is the list of the names of the pitch classes
  \<open>(rootIndex + major_offset (((degree - 1) mod 7) + 1) + shift) mod 12\<close>, each within
  0 to 11, deduplicated with first occurrences kept. The tokens 1, b3, 5 over the root C
  with sharps give C, D#, G.
\<close>

theorem degrees_to_notes_text_resolves:
  "(raw_tokens s = [] \<longrightarrow>
      degrees_to_notes_text s root use_flats = Inl No_degree_tokens_provided) \<and>
   (normalize_note root use_flats = Inr root_n \<longrightarrow>
      (\<exists>i. pitch_class_of root use_flats = Some i)) \<and>
   (raw_tokens s \<noteq> [] \<and> pitch_class_of root use_flats = Some rootIndex \<and>
    map parse_degree_token (raw_tokens s) = map Inr ds \<longrightarrow>
      degrees_to_notes_text s root use_flats =
        Inr (first_occurrences
               (map (\<lambda>d. chromatic_names use_flats ! nat (spec_pitch_class rootIndex d)) ds)) \<and>
      (\<forall>d\<in>set ds. 0 \<le> spec_pitch_class rootIndex d \<and> spec_pitch_class rootIndex d < 12)) \<and>
   degrees_to_notes_text (str ''1 b3 5'') (str ''C'') False = Inr [str ''C'', str ''D#'', str ''G'']"
proof (intro conjI impI)
  show "degrees_to_notes_text s root use_flats = Inl No_degree_tokens_provided"
    if "raw_tokens s = []"
    using that by (simp add: degrees_to_notes_text_def)
  show "\<exists>i. pitch_class_of root use_flats = Some i"
    if "normalize_note root use_flats = Inr root_n"
    using pitch_class_of_valid [OF that] by blast
  show "degrees_to_notes_text (str ''1 b3 5'') (str ''C'') False = Inr [str ''C'', str ''D#'', str ''G'']"
    by code_simp
next
  assume h: "raw_tokens s \<noteq> [] \<and> pitch_class_of root use_flats = Some rootIndex \<and>
             map parse_degree_token (raw_tokens s) = map Inr ds"
  from h pitch_class_of_SomeD [of root use_flats rootIndex]
  obtain root_n where n: "normalize_note root use_flats = Inr root_n"
    and m: "map_of (if use_flats then NOTE_TO_INDEX_FLATS else NOTE_TO_INDEX_SHARPS) root_n
            = Some rootIndex"
    by blast
  from h have r: "map_result (degree_note (chromatic_names use_flats) rootIndex) (raw_tokens s)
                  = Inr (map (\<lambda>d. chromatic_names use_flats ! nat (spec_pitch_class rootIndex d)) ds)"
    by (simp add: map_result_degree_notes)
  from h n m r
  show "degrees_to_notes_text s root use_flats =
          Inr (first_occurrences
                 (map (\<lambda>d. chromatic_names use_flats ! nat (spec_pitch_class rootIndex d)) ds))"
    by (cases use_flats)
       (simp_all add: degrees_to_notes_text_def chromatic_names_def unique_preserve_order_eq)
  show "\<forall>d\<in>set ds. 0 \<le> spec_pitch_class rootIndex d \<and> spec_pitch_class rootIndex d < 12"
    using spec_pitch_class_range by blast
qed

theorem degrees_to_notes_text_resolves_witness:
  "raw_tokens (str '' , '') = [] \<and>
   degrees_to_notes_text (str '' , '') (str ''C'') True = Inl No_degree_tokens_provided \<and>
   normalize_note (str ''bb'') True = Inr (str ''Bb'') \<and>
   raw_tokens (str ''1, b3 5 8 10b'') \<noteq> [] \<and> pitch_class_of (str ''bb'') True = Some 10 \<and>
   map parse_degree_token (raw_tokens (str ''1, b3 5 8 10b''))
     = map Inr [(1, 0), (3, - 1), (5, 0), (8, 0), (10, - 1)] \<and>
   degrees_to_notes_text (str ''1, b3 5 8 10b'') (str ''bb'') True = Inr [str ''Bb'', str ''Db'', str ''F''] \<and>
   list_all (\<lambda>d. 0 \<le> spec_pitch_class 10 d \<and> spec_pitch_class 10 d < 12)
     [(1, 0), (3, - 1), (5, 0), (8, 0), (10, - 1)]"
proof -
  have e: "raw_tokens (str '' , '') = []" by code_simp
  have n: "normalize_note (str ''bb'') True = Inr (str ''Bb'')" by code_simp
  have t: "raw_tokens (str ''1, b3 5 8 10b'') \<noteq> []" by code_simp
  have p: "pitch_class_of (str ''bb'') True = Some 10" by code_simp
  have m: "map parse_degree_token (raw_tokens (str ''1, b3 5 8 10b''))
           = map Inr [(1, 0), (3, - 1), (5, 0), (8, 0), (10, - 1)]" by code_simp
  have v: "first_occurrences
             (map (\<lambda>d. chromatic_names True ! nat (spec_pitch_class 10 d))
                [(1, 0), (3, - 1), (5, 0), (8, 0), (10, - 1)])
           = [str ''Bb'', str ''Db'', str ''F'']" by code_simp
  from degrees_to_notes_text_resolves [of "(str '' , '')" "(str ''C'')" True "(str ''C'')" 0 "[]"] e
  have a: "degrees_to_notes_text (str '' , '') (str ''C'') True = Inl No_degree_tokens_provided"
    by blast
  from degrees_to_notes_text_resolves
         [of "(str ''1, b3 5 8 10b'')" "(str ''bb'')" True "(str ''Bb'')" 10
             "[(1, 0), (3, - 1), (5, 0), (8, 0), (10, - 1)]"] t p m
  have b: "degrees_to_notes_text (str ''1, b3 5 8 10b'') (str ''bb'') True =
             Inr (first_occurrences
                    (map (\<lambda>d. chromatic_names True ! nat (spec_pitch_class 10 d))
                       [(1, 0), (3, - 1), (5, 0), (8, 0), (10, - 1)]))"
    and c: "\<forall>d\<in>set [(1, 0), (3, - 1), (5, 0), (8, 0), (10, - 1)].
              0 \<le> spec_pitch_class 10 d \<and> spec_pitch_class 10 d < 12"
    by blast+
  from c have c': "list_all (\<lambda>d. 0 \<le> spec_pitch_class 10 d \<and> spec_pitch_class 10 d < 12)
                     [(1, 0), (3, - 1), (5, 0), (8, 0), (10, - 1)]"
    by (simp only: list_all_iff)
  from e a n t p m b v c' show ?thesis by (simp only: simp_thms)
qed

text \<open>
  C5. For a scale name of the table and a root of index \<open>root_idx\<close>, \<open>generate_scale\<close>
  computes the raw tones of the steps, drops the last one when the number of steps is 5,
  6, 7, 8 or 12 and drops none otherwise, spells the tones under the flag and
  deduplicates them with first occurrences kept. The major pentatonic over C gives C, D,
  E, G, A; a pattern of two steps keeps its three tones.
\<close>

theorem generate_scale_tones:
  "(scale_modes mode = Some steps \<and> pitch_class_of root False = Some root_idx \<longrightarrow>
      generate_scale root mode scale_modes use_flats =
        Inr (first_occurrences
               (map (spell use_flats)
                  (if length steps \<in> {5, 6, 7, 8, 12} then butlast (scale_tones root_idx steps)
                   else scale_tones root_idx steps)))) \<and>
   generate_scale (str ''C'') (str ''pentatonic_major'') (map_of SCALE_MODES) False
     = Inr [str ''C'', str ''D'', str ''E'', str ''G'', str ''A''] \<and>
   generate_scale (str ''C'') (str ''triad'') [(str ''triad'') \<mapsto> [4, 3]] False = Inr [str ''C'', str ''E'', str ''G'']"
proof (intro conjI impI)
  assume h: "scale_modes mode = Some steps \<and> pitch_class_of root False = Some root_idx"
  from h pitch_class_of_SomeD [of root False root_idx]
  obtain root_n where n: "normalize_note root False = Inr root_n"
    and m: "map_of NOTE_TO_INDEX_SHARPS root_n = Some root_idx"
    and i: "0 \<le> root_idx" "root_idx < 12" "CHROMATIC_SHARPS ! nat root_idx = root_n"
    by (auto simp: chromatic_names_def)
  have t: "root_n # scale_walk root_idx steps = scale_tones root_idx steps"
    using i by (rule scale_tones_eq)
  have sp: "(\<lambda>n. case map_of SHARP_TO_FLAT n of None \<Rightarrow> n | Some fl \<Rightarrow> fl) = spell True"
    "spell False = (\<lambda>n. n)"
    by (auto simp: spell_def fun_eq_iff)
  from h n m show "generate_scale root mode scale_modes use_flats =
        Inr (first_occurrences
               (map (spell use_flats)
                  (if length steps \<in> {5, 6, 7, 8, 12} then butlast (scale_tones root_idx steps)
                   else scale_tones root_idx steps)))"
    by (cases use_flats)
       (simp_all add: generate_scale_def t sp unique_preserve_order_eq del: butlast.simps)
next
  show "generate_scale (str ''C'') (str ''pentatonic_major'') (map_of SCALE_MODES) False
          = Inr [str ''C'', str ''D'', str ''E'', str ''G'', str ''A'']"
    by code_simp
  show "generate_scale (str ''C'') (str ''triad'') [(str ''triad'') \<mapsto> [4, 3]] False = Inr [str ''C'', str ''E'', str ''G'']"
    by (simp add: generate_scale_def) code_simp
qed

theorem generate_scale_tones_witness:
  "map_of SCALE_MODES (str ''whole_tone'') = Some [2, 2, 2, 2, 2, 2] \<and>
   pitch_class_of (str ''Db'') False = Some 1 \<and>
   generate_scale (str ''Db'') (str ''whole_tone'') (map_of SCALE_MODES) True
     = Inr [str ''Db'', str ''Eb'', str ''F'', str ''G'', str ''A'', str ''B'']"
proof -
  have s: "map_of SCALE_MODES (str ''whole_tone'') = Some [2, 2, 2, 2, 2, 2]" by code_simp
  have p: "pitch_class_of (str ''Db'') False = Some 1" by code_simp
  have v: "first_occurrences
             (map (spell True)
                (if length [2, 2, 2, 2, 2, 2 :: int] \<in> {5, 6, 7, 8, 12}
                 then butlast (scale_tones 1 [2, 2, 2, 2, 2, 2])
                 else scale_tones 1 [2, 2, 2, 2, 2, 2]))
           = [str ''Db'', str ''Eb'', str ''F'', str ''G'', str ''A'', str ''B'']" by code_simp
  from generate_scale_tones
         [of "map_of SCALE_MODES" "(str ''whole_tone'')" "[2, 2, 2, 2, 2, 2]" "(str ''Db'')" 1 True] s p
  have "generate_scale (str ''Db'') (str ''whole_tone'') (map_of SCALE_MODES) True =
        Inr (first_occurrences
               (map (spell True)
                  (if length [2, 2, 2, 2, 2, 2 :: int] \<in> {5, 6, 7, 8, 12}
                   then butlast (scale_tones 1 [2, 2, 2, 2, 2, 2])
                   else scale_tones 1 [2, 2, 2, 2, 2, 2])))"
    by blast
  with s p v show ?thesis by (simp only: simp_thms)
qed

text \<open>
  C6, as stated: every token that neither matches the grammar nor is \<open>r\<close> or \<open>root\<close> is
  rejected. The token made of the flat sign U+266D and the digit 3 starts with a
  character that is neither an accidental \<open>b\<close>, \<open>#\<close>, \<open>x\<close> nor a digit; it is accepted
  with degree 3 and shift -1, and resolves over the root C to D#.
\<close>

theorem parse_degree_token_flat_sign_accepted:
  "\<not> is_acc 0x266D \<and> \<not> isdigit 0x266D \<and>
   lower [0x266D, cp (CHR ''3'')] \<notin> set [str ''r'', str ''root''] \<and>
   parse_degree_token [0x266D, cp (CHR ''3'')] = Inr (3, - 1) \<and>
   degrees_to_notes_text [0x266D, cp (CHR ''3'')] (str ''C'') False = Inr [str ''D#'']"
  by code_simp

text \<open>
  C6, amended: a token made of a run of accidentals (\<open>b\<close>, \<open>#\<close>, \<open>x\<close>), one to 4300
  decimal digits and a run of accidentals yields the decimal value of its digits and the
  sum of the shifts of all its accidentals; the tokens \<open>r\<close> and \<open>root\<close>, in any case,
  yield degree 1 and shift 0. A token is read after it is trimmed and its U+266D and
  U+266F are replaced by \<open>b\<close> and \<open>#\<close>: what it then is decides in the same way, and
  every token that is then neither of the two kinds is rejected.
\<close>

theorem parse_degree_token_grammar_complete:
  "((\<forall>c\<in>set p. is_acc c) \<and> d \<noteq> [] \<and> (\<forall>c\<in>set d. isdecimal c) \<and> length d \<le> 4300 \<and>
    (\<forall>c\<in>set s. is_acc c) \<longrightarrow>
      parse_degree_token (p @ d @ s) = Inr (decimal_value d, spec_shift (p @ s))) \<and>
   (lower token \<in> set [str ''r'', str ''root''] \<longrightarrow> parse_degree_token token = Inr (1, 0)) \<and>
   (canonical_token token = p @ d @ s \<and>
    (\<forall>c\<in>set p. is_acc c) \<and> d \<noteq> [] \<and> (\<forall>c\<in>set d. isdecimal c) \<and> length d \<le> 4300 \<and>
    (\<forall>c\<in>set s. is_acc c) \<longrightarrow>
      parse_degree_token token = Inr (decimal_value d, spec_shift (p @ s))) \<and>
   (lower (canonical_token token) \<in> set [str ''r'', str ''root''] \<longrightarrow>
      parse_degree_token token = Inr (1, 0)) \<and>
   (lower (canonical_token token) \<notin> set [str ''r'', str ''root''] \<and>
    \<not> (\<exists>p d s. canonical_token token = p @ d @ s \<and> (\<forall>c\<in>set p. is_acc c) \<and> d \<noteq> [] \<and>
                 (\<forall>c\<in>set d. isdecimal c) \<and> length d \<le> 4300 \<and> (\<forall>c\<in>set s. is_acc c)) \<longrightarrow>
      (\<exists>e. parse_degree_token token = Inl e))"
proof (intro conjI impI)
  assume g: "(\<forall>c\<in>set p. is_acc c) \<and> d \<noteq> [] \<and> (\<forall>c\<in>set d. isdecimal c) \<and> length d \<le> 4300 \<and>
             (\<forall>c\<in>set s. is_acc c)"
  then have "\<forall>c\<in>set d. isdigit c" using isdecimal_isdigit by blast
  then have "\<forall>c\<in>set d. \<not> isspace c \<and> c \<noteq> 0x266D \<and> c \<noteq> 0x266F"
    using isdigit_facts by blast
  moreover from g have "\<forall>c\<in>set p. \<not> isspace c \<and> c \<noteq> 0x266D \<and> c \<noteq> 0x266F"
    using is_acc_facts by blast
  moreover from g have "\<forall>c\<in>set s. \<not> isspace c \<and> c \<noteq> 0x266D \<and> c \<noteq> 0x266F"
    using is_acc_facts by blast
  ultimately
  have "\<forall>c\<in>set (p @ d @ s). \<not> isspace c \<and> c \<noteq> 0x266D \<and> c \<noteq> 0x266F"
    by (simp only: set_append ball_Un simp_thms)
  then have "canonical_token (p @ d @ s) = p @ d @ s" by (rule canonical_token_id)
  with g show "parse_degree_token (p @ d @ s) = Inr (decimal_value d, spec_shift (p @ s))"
    by (intro parse_degree_token_grammar) simp_all
next
  assume r: "lower token \<in> set [str ''r'', str ''root'']"
  have "\<forall>c\<in>set token. lower_char c \<in> set (str ''rot'')"
  proof
    fix c assume "c \<in> set token"
    then have "lower_char c \<in> set (lower token)" by (simp add: lower_def)
    with r show "lower_char c \<in> set (str ''rot'')" by auto
  qed
  with root_letters root_letter_facts
  have "\<forall>c\<in>set token. \<not> isspace c \<and> c \<noteq> 0x266D \<and> c \<noteq> 0x266F" by blast
  then have "canonical_token token = token" by (rule canonical_token_id)
  with r show "parse_degree_token token = Inr (1, 0)"
    by (intro parse_degree_token_root) simp
next
  assume "canonical_token token = p @ d @ s \<and>
    (\<forall>c\<in>set p. is_acc c) \<and> d \<noteq> [] \<and> (\<forall>c\<in>set d. isdecimal c) \<and> length d \<le> 4300 \<and>
    (\<forall>c\<in>set s. is_acc c)"
  then show "parse_degree_token token = Inr (decimal_value d, spec_shift (p @ s))"
    by (intro parse_degree_token_grammar) simp_all
next
  assume "lower (canonical_token token) \<in> set [str ''r'', str ''root'']"
  then show "parse_degree_token token = Inr (1, 0)" by (rule parse_degree_token_root)
next
  assume n: "lower (canonical_token token) \<notin> set [str ''r'', str ''root''] \<and>
    \<not> (\<exists>p d s. canonical_token token = p @ d @ s \<and> (\<forall>c\<in>set p. is_acc c) \<and> d \<noteq> [] \<and>
                 (\<forall>c\<in>set d. isdecimal c) \<and> length d \<le> 4300 \<and> (\<forall>c\<in>set s. is_acc c))"
  show "\<exists>e. parse_degree_token token = Inl e"
  proof (cases "parse_degree_token token")
    case (Inl e)
    then show ?thesis by blast
  next
    case (Inr r)
    from parse_degree_token_accepted [OF Inr] n show ?thesis by blast
  qed
qed

theorem parse_degree_token_grammar_complete_witness:
  "list_all is_acc (str ''bx'') \<and> [cp (CHR ''1''), 0x662] \<noteq> [] \<and>
   list_all isdecimal [cp (CHR ''1''), 0x662] \<and> length [cp (CHR ''1''), 0x662] \<le> 4300 \<and>
   list_all is_acc (str ''#b'') \<and>
   parse_degree_token (str ''bx'' @ [cp (CHR ''1''), 0x662] @ str ''#b'') = Inr (12, 1) \<and>
   lower (str ''rOOt'') \<in> set [str ''r'', str ''root''] \<and>
   parse_degree_token (str ''rOOt'') = Inr (1, 0) \<and>
   canonical_token [0xA0, 0x266D, cp (CHR ''4''), 0x266F, 0x2003]
     = str ''b'' @ str ''4'' @ str ''#'' \<and>
   parse_degree_token [0xA0, 0x266D, cp (CHR ''4''), 0x266F, 0x2003] = Inr (4, 0) \<and>
   lower (canonical_token (str '' R'')) \<in> set [str ''r'', str ''root''] \<and>
   parse_degree_token (str '' R'') = Inr (1, 0) \<and>
   lower (canonical_token [0xB2]) \<notin> set [str ''r'', str ''root''] \<and>
   isl (parse_degree_token [0xB2])"
proof -
  let ?d = "[cp (CHR ''1''), 0x662]"
  let ?t = "[0xA0, 0x266D, cp (CHR ''4''), 0x266F, 0x2003]"
  have l: "list_all is_acc (str ''bx'') \<and> ?d \<noteq> [] \<and> list_all isdecimal ?d \<and>
           length ?d \<le> 4300 \<and> list_all is_acc (str ''#b'')" by code_simp
  have g: "(\<forall>c\<in>set (str ''bx''). is_acc c) \<and> ?d \<noteq> [] \<and> (\<forall>c\<in>set ?d. isdecimal c) \<and>
           length ?d \<le> 4300 \<and> (\<forall>c\<in>set (str ''#b''). is_acc c)" by code_simp
  have v: "decimal_value ?d = 12" "spec_shift (str ''bx'' @ str ''#b'') = 1" by code_simp+
  have r: "lower (str ''rOOt'') \<in> set [str ''r'', str ''root'']" by code_simp
  have c: "canonical_token ?t = str ''b'' @ str ''4'' @ str ''#''" by code_simp
  have h: "(\<forall>c\<in>set (str ''b''). is_acc c) \<and> str ''4'' \<noteq> [] \<and>
           (\<forall>c\<in>set (str ''4''). isdecimal c) \<and> length (str ''4'') \<le> 4300 \<and>
           (\<forall>c\<in>set (str ''#''). is_acc c)" by code_simp
  have w: "decimal_value (str ''4'') = 4" "spec_shift (str ''b'' @ str ''#'') = 0"
    by code_simp+
  have q: "lower (canonical_token (str '' R'')) \<in> set [str ''r'', str ''root'']" by code_simp
  have n: "lower (canonical_token [0xB2]) \<notin> set [str ''r'', str ''root'']" by code_simp
  have m: "\<not> (\<exists>p d s. canonical_token [0xB2] = p @ d @ s \<and> (\<forall>c\<in>set p. is_acc c) \<and> d \<noteq> [] \<and>
               (\<forall>c\<in>set d. isdecimal c) \<and> length d \<le> 4300 \<and> (\<forall>c\<in>set s. is_acc c))"
  proof
    assume "\<exists>p d s. canonical_token [0xB2] = p @ d @ s \<and> (\<forall>c\<in>set p. is_acc c) \<and> d \<noteq> [] \<and>
               (\<forall>c\<in>set d. isdecimal c) \<and> length d \<le> 4300 \<and> (\<forall>c\<in>set s. is_acc c)"
    then obtain p d s where e: "canonical_token [0xB2] = p @ d @ s" and d: "d \<noteq> []"
      and dd: "\<forall>c\<in>set d. isdecimal c"
      by blast
    have k: "canonical_token [0xB2] = [0xB2]" by code_simp
    from e k d have "0xB2 \<in> set d"
      by (cases p; cases d) (auto simp: Cons_eq_append_conv)
    with dd have "isdecimal 0xB2" by blast
    moreover have "\<not> isdecimal 0xB2" by code_simp
    ultimately show False by blast
  qed
  note t1 = parse_degree_token_grammar_complete [of "str ''bx''" ?d "str ''#b''" "str ''rOOt''"]
  from t1 g
  have "parse_degree_token (str ''bx'' @ ?d @ str ''#b'')
        = Inr (decimal_value ?d, spec_shift (str ''bx'' @ str ''#b''))"
    by blast
  then have a: "parse_degree_token (str ''bx'' @ ?d @ str ''#b'') = Inr (12, 1)"
    using v by simp
  from t1 r have b: "parse_degree_token (str ''rOOt'') = Inr (1, 0)"
    by blast
  note t2 = parse_degree_token_grammar_complete [of "str ''b''" "str ''4''" "str ''#''" ?t]
  from t2 c h
  have "parse_degree_token ?t
        = Inr (decimal_value (str ''4''), spec_shift (str ''b'' @ str ''#''))"
    by blast
  then have e: "parse_degree_token ?t = Inr (4, 0)"
    using w by simp
  from parse_degree_token_grammar_complete [of "str ''b''" "str ''4''" "str ''#''" "str '' R''"] q
  have f: "parse_degree_token (str '' R'') = Inr (1, 0)" by blast
  from parse_degree_token_grammar_complete [of "[]" "[]" "[]" "[0xB2]"] n m
  have "\<exists>e. parse_degree_token [0xB2] = Inl e" by blast
  then have i: "isl (parse_degree_token [0xB2])" by auto
  from l a r b c e q f n i show ?thesis by blast
qed

end
